theory Spec2Isabelle
  imports Complex_Main "HOL-Library.Product_Lexorder" "HOL-Library.Multiset"
begin

section \<open>Data model\<close>

text \<open>
  A Python \<open>str\<close> is a sequence of Unicode code points. A character is modelled by its
  code point (what \<open>ord\<close> returns), a string by the list of its code points. An inventory
  (\<open>set[str]\<close> of single characters) is a set of code points.
\<close>

type_synonym pystr = "nat list"

type_synonym inventory = "nat set"

datatype py_error = TypeError

text \<open>
  A \<open>dict\<close> keeps its keys in insertion order: an association list without duplicate
  keys. \<open>d[k] = v\<close> overwrites the value in place when the key is present and appends the
  pair otherwise.
\<close>

type_synonym ('k, 'v) pydict = "('k \<times> 'v) list"

definition dict_keys :: "('k, 'v) pydict \<Rightarrow> 'k list" where
  "dict_keys d = map fst d"

definition dict_contains :: "('k, 'v) pydict \<Rightarrow> 'k \<Rightarrow> bool" where
  "dict_contains d k = (k \<in> set (dict_keys d))"

fun dict_get :: "('k, 'v) pydict \<Rightarrow> 'k \<Rightarrow> 'v \<Rightarrow> 'v" where
  "dict_get [] k dflt = dflt"
| "dict_get ((k', v') # d) k dflt = (if k' = k then v' else dict_get d k dflt)"

fun dict_set :: "('k, 'v) pydict \<Rightarrow> 'k \<Rightarrow> 'v \<Rightarrow> ('k, 'v) pydict" where
  "dict_set [] k v = [(k, v)]"
| "dict_set ((k', v') # d) k v =
     (if k' = k then (k', v) # d else (k', v') # dict_set d k v)"

text \<open>
  \<open>Counter(iterable)\<close> counts the elements from left to right:
  \<open>self[elem] = self.get(elem, 0) + 1\<close>. A missing key reads as 0.
\<close>

definition counter_add :: "(nat, nat) pydict \<Rightarrow> nat \<Rightarrow> (nat, nat) pydict" where
  "counter_add d elem = dict_set d elem (dict_get d elem 0 + 1)"

definition Counter :: "pystr \<Rightarrow> (nat, nat) pydict" where
  "Counter xs = foldl counter_add [] xs"

section \<open>Unicode classifier\<close>

definition HAN_RANGES :: "(nat \<times> nat) list" where
  "HAN_RANGES =
    [(0x3400, 0x4DBF),
     (0x4E00, 0x9FFF),
     (0xF900, 0xFAFF),
     (0x20000, 0x2A6DF),
     (0x2A700, 0x2B73F),
     (0x2B740, 0x2B81F),
     (0x2B820, 0x2CEAF),
     (0x2CEB0, 0x2EBEF),
     (0x30000, 0x3134F),
     (0x31350, 0x323AF),
     (0x2EBF0, 0x2EE5D),
     (0x323B0, 0x33479)]"

text \<open>The loop of \<open>is_han\<close> over the range table: the first range holding \<open>cp\<close> returns.\<close>

fun scan_ranges :: "(nat \<times> nat) list \<Rightarrow> nat \<Rightarrow> bool" where
  "scan_ranges [] cp = False"
| "scan_ranges ((start, stop) # rs) cp =
     (if start \<le> cp \<and> cp \<le> stop then True else scan_ranges rs cp)"

text \<open>
  \<open>is_han(ch)\<close>: the empty string is falsy and gives \<open>False\<close>; \<open>ord\<close> of a string of
  two or more characters raises \<open>TypeError\<close>.
\<close>

fun is_han :: "pystr \<Rightarrow> py_error + bool" where
  "is_han [] = Inr False"
| "is_han [ch] = Inr (scan_ranges HAN_RANGES ch)"
| "is_han (ch # ch' # rest) = Inl TypeError"

text \<open>
  The order the range table is asked to be in: for every two consecutive intervals the
  start of the later one exceeds the end of the earlier one.
\<close>

fun ascending_nonoverlapping :: "(nat \<times> nat) list \<Rightarrow> bool" where
  "ascending_nonoverlapping [] = True"
| "ascending_nonoverlapping [r] = True"
| "ascending_nonoverlapping (r # r' # rs) =
     (snd r < fst r' \<and> ascending_nonoverlapping (r' # rs))"

section \<open>Text filter\<close>

text \<open>
  \<open>str.strip()\<close> without argument removes leading and trailing whitespace, where
  whitespace is what \<open>str.isspace\<close> accepts: the table of the Python runtime.
\<close>

definition py_isspace :: "nat \<Rightarrow> bool" where
  "py_isspace c \<longleftrightarrow>
     (0x09 \<le> c \<and> c \<le> 0x0D) \<or> (0x1C \<le> c \<and> c \<le> 0x20) \<or> c = 0x85 \<or> c = 0xA0 \<or>
     c = 0x1680 \<or> (0x2000 \<le> c \<and> c \<le> 0x200A) \<or> c = 0x2028 \<or> c = 0x2029 \<or>
     c = 0x202F \<or> c = 0x205F \<or> c = 0x3000"

definition py_strip :: "pystr \<Rightarrow> pystr" where
  "py_strip s = rev (dropWhile py_isspace (rev (dropWhile py_isspace s)))"

text \<open>
  \<open>iter_text_chars\<close>: iterating a string yields one-character strings, so \<open>is_han\<close> is
  called on \<open>[ch]\<close> and never raises here.
\<close>

fun iter_text_chars :: "pystr \<Rightarrow> bool \<Rightarrow> pystr" where
  "iter_text_chars [] han_only = []"
| "iter_text_chars (ch # text) han_only =
     (if han_only \<and> is_han [ch] = Inr False then iter_text_chars text han_only
      else if py_strip [ch] = [] then iter_text_chars text han_only
      else ch # iter_text_chars text han_only)"

section \<open>Floating-point arithmetic\<close>

text \<open>
  A Python \<open>float\<close> is an IEEE 754 binary64 number: 53 significant bits, exponents from
  \<open>-1022\<close> to \<open>1023\<close>, subnormal numbers below. A finite float is a rational number,
  and a float is modelled by the rational it denotes. Each arithmetic operation returns
  the exact result rounded to the nearest float, a tie going to the float whose last
  significant bit is even. The percentages of this program are quotients in \<open>[0, 1]\<close>
  and products in \<open>[0, 100]\<close>, so overflow, infinities, NaN and negative zero never
  arise.
\<close>

type_synonym pyfloat = rat

text \<open>\<open>int.bit_length()\<close>: the number of binary digits of \<open>n\<close>.\<close>

fun bit_length :: "nat \<Rightarrow> nat" where
  "bit_length n = (if n = 0 then 0 else Suc (bit_length (n div 2)))"

declare bit_length.simps [simp del]

text \<open>
  The binary exponent of a positive rational \<open>x\<close>: the \<open>e\<close> with
  \<open>2 ^ e \<le> x < 2 ^ (e + 1)\<close>.
\<close>

definition binary_exponent :: "rat \<Rightarrow> int" where
  "binary_exponent x =
     (if 1 \<le> x then int (bit_length (nat \<lfloor>x\<rfloor>)) - 1
      else - int (bit_length (nat (\<lceil>1 / x\<rceil> - 1))))"

text \<open>Rounding to the nearest integer, a tie going to the even one.\<close>

definition round_half_even :: "rat \<Rightarrow> int" where
  "round_half_even x =
     (let f = \<lfloor>x\<rfloor>; d = x - of_int f
      in if d < 1 / 2 then f else if 1 / 2 < d then f + 1 else if even f then f else f + 1)"

text \<open>
  Rounding to the nearest float: the spacing of the floats around \<open>x\<close> is
  \<open>ulp = 2 ^ (e - 52)\<close>, where \<open>e\<close> is the binary exponent of \<open>\<bar>x\<bar>\<close>, and \<open>-1022\<close>
  in the subnormal range.
\<close>

definition round_double :: "rat \<Rightarrow> pyfloat" where
  "round_double x =
     (if x = 0 then 0
      else (let e = max (binary_exponent \<bar>x\<bar>) (- 1022);
                ulp = power_int 2 (e - 52)
            in sgn x * of_int (round_half_even (\<bar>x\<bar> / ulp)) * ulp))"

text \<open>
  \<open>a / b\<close> on two \<open>int\<close>: the correctly rounded quotient. \<open>x * y\<close> on two \<open>float\<close>: the
  correctly rounded product.
\<close>

definition int_truediv :: "nat \<Rightarrow> nat \<Rightarrow> pyfloat" where
  "int_truediv a b = round_double (of_nat a / of_nat b)"

definition float_mul :: "pyfloat \<Rightarrow> pyfloat \<Rightarrow> pyfloat" where
  "float_mul x y = round_double (x * y)"

section \<open>Coverage analyzer\<close>

text \<open>
  The report dictionary of \<open>coverage_report\<close>, one field per key. The percentage is
  \<open>known_count / total * 100.0\<close>: a division of two \<open>int\<close> and a multiplication of two
  \<open>float\<close>, each rounded.
\<close>

record report =
  total_chars :: nat
  known_chars :: nat
  unknown_chars :: nat
  coverage_pct :: pyfloat
  known_freq :: "(nat, nat) pydict"
  unknown_freq :: "(nat, nat) pydict"

definition coverage_report :: "pystr \<Rightarrow> inventory \<Rightarrow> bool \<Rightarrow> report" where
  "coverage_report text inventory han_only =
     (let chars = iter_text_chars text han_only;
          total = length chars;
          known = filter (\<lambda>ch. ch \<in> inventory) chars;
          unknown = filter (\<lambda>ch. ch \<notin> inventory) chars;
          known_count = length known;
          unknown_count = length unknown;
          coverage = (if total \<noteq> 0 then float_mul (int_truediv known_count total) 100
                      else 100)
      in \<lparr> total_chars = total,
           known_chars = known_count,
           unknown_chars = unknown_count,
           coverage_pct = coverage,
           known_freq = Counter known,
           unknown_freq = Counter unknown \<rparr>)"

section \<open>Per-line analyzer\<close>

text \<open>
  \<open>str.splitlines()\<close> of the Python runtime: a line ends at any of the line boundaries
  LF, VT, FF, CR, CR LF (one boundary), FS, GS, RS, NEL, LS and PS; the boundary is not
  part of the line; a last fragment without boundary is a line when it is not empty.
  \<open>cur\<close> holds the characters of the line being read, latest first.
\<close>

definition py_linebreak :: "nat \<Rightarrow> bool" where
  "py_linebreak c \<longleftrightarrow>
     c = 0x0A \<or> c = 0x0B \<or> c = 0x0C \<or> c = 0x0D \<or> c = 0x1C \<or> c = 0x1D \<or> c = 0x1E \<or>
     c = 0x85 \<or> c = 0x2028 \<or> c = 0x2029"

fun splitlines_from :: "pystr \<Rightarrow> pystr \<Rightarrow> pystr list" where
  "splitlines_from cur [] = (if cur = [] then [] else [rev cur])"
| "splitlines_from cur [c] = (if py_linebreak c then [rev cur] else [rev (c # cur)])"
| "splitlines_from cur (c # c' # rest) =
     (if c = 0x0D \<and> c' = 0x0A then rev cur # splitlines_from [] rest
      else if py_linebreak c then rev cur # splitlines_from [] (c' # rest)
      else splitlines_from (c # cur) (c' # rest))"

definition splitlines :: "pystr \<Rightarrow> pystr list" where
  "splitlines s = splitlines_from [] s"

text \<open>\<open>line.rstrip("\n")\<close> removes the line feeds at the end of the line.\<close>

definition rstrip_lf :: "pystr \<Rightarrow> pystr" where
  "rstrip_lf line = rev (dropWhile (\<lambda>c. c = 0x0A) (rev line))"

text \<open>A per-line record: \<open>(line_no, total, known, coverage_pct, line_text)\<close>.\<close>

type_synonym line_record = "nat \<times> nat \<times> nat \<times> pyfloat \<times> pystr"

definition line_no :: "line_record \<Rightarrow> nat" where
  "line_no r = fst r"

definition line_total :: "line_record \<Rightarrow> nat" where
  "line_total r = fst (snd r)"

definition line_known :: "line_record \<Rightarrow> nat" where
  "line_known r = fst (snd (snd r))"

definition line_pct :: "line_record \<Rightarrow> pyfloat" where
  "line_pct r = fst (snd (snd (snd r)))"

definition line_text :: "line_record \<Rightarrow> pystr" where
  "line_text r = snd (snd (snd (snd r)))"

text \<open>The loop of \<open>per_line_breakdown\<close>; \<open>i\<close> is the counter of \<open>enumerate\<close>.\<close>

fun per_line_loop :: "nat \<Rightarrow> pystr list \<Rightarrow> inventory \<Rightarrow> bool \<Rightarrow> line_record list" where
  "per_line_loop i [] inventory han_only = []"
| "per_line_loop i (line # lines) inventory han_only =
     (let chars = iter_text_chars line han_only;
          total = length chars
      in if total = 0
         then (i, 0, 0, 100, rstrip_lf line) # per_line_loop (i + 1) lines inventory han_only
         else (let known = length (filter (\<lambda>ch. ch \<in> inventory) chars);
                   pct = float_mul (int_truediv known total) 100
               in (i, total, known, pct, rstrip_lf line)
                    # per_line_loop (i + 1) lines inventory han_only))"

definition per_line_breakdown :: "pystr \<Rightarrow> inventory \<Rightarrow> bool \<Rightarrow> line_record list" where
  "per_line_breakdown text inventory han_only =
     per_line_loop 1 (splitlines text) inventory han_only"

text \<open>
  The line structure in the words of the specification, for comparison: a line is
  terminated by a line feed, a trailing fragment without terminator is its own line, the
  empty text has no lines.
\<close>

fun spec_lines_from :: "pystr \<Rightarrow> pystr \<Rightarrow> pystr list" where
  "spec_lines_from cur [] = (if cur = [] then [] else [rev cur])"
| "spec_lines_from cur (c # rest) =
     (if c = 0x0A then rev cur # spec_lines_from [] rest
      else spec_lines_from (c # cur) rest)"

definition spec_lines :: "pystr \<Rightarrow> pystr list" where
  "spec_lines s = spec_lines_from [] s"

section \<open>Inventory loader\<close>

text \<open>
  An inventory file as the loader sees it: the stem of its path (\<open>p.stem\<close>), the path
  as a string (\<open>str(p)\<close>) and the text a successful \<open>read_text\<close> returns. A read that
  fails ends the program at the boundary and is not part of the model.
\<close>

record path =
  stem :: pystr
  path_str :: pystr
  read_text :: pystr

definition load_inventory :: "path \<Rightarrow> inventory" where
  "load_inventory p =
     (let data = read_text p in set (filter (\<lambda>ch. is_han [ch] = Inr True) data))"

text \<open>Decimal digits of \<open>n\<close>, as the f-string writes an integer.\<close>

fun str_of_nat :: "nat \<Rightarrow> pystr" where
  "str_of_nat n = (if n < 10 then [0x30 + n] else str_of_nat (n div 10) @ [0x30 + n mod 10])"

declare str_of_nat.simps [simp del]

text \<open>\<open>f"{base}-{n}"\<close>\<close>

definition suffixed :: "pystr \<Rightarrow> nat \<Rightarrow> pystr" where
  "suffixed base n = base @ [0x2D] @ str_of_nat n"

text \<open>\<open>label = p.stem or str(p)\<close>\<close>

definition initial_label :: "path \<Rightarrow> pystr" where
  "initial_label p = (if stem p \<noteq> [] then stem p else path_str p)"

text \<open>The \<open>while label in inventories\<close> loop; it returns the label it leaves with.\<close>

function find_label :: "(pystr, 'v) pydict \<Rightarrow> pystr \<Rightarrow> pystr \<Rightarrow> nat \<Rightarrow> pystr" where
  "find_label inventories base label n =
     (if dict_contains inventories label
      then find_label inventories base (suffixed base n) (n + 1)
      else label)"
  by pat_completeness auto

definition load_step :: "(pystr, inventory) pydict \<Rightarrow> path \<Rightarrow> (pystr, inventory) pydict" where
  "load_step inventories p =
     (let label = initial_label p;
          base = label;
          label = find_label inventories base label 2
      in dict_set inventories label (load_inventory p))"

definition load_inventories :: "path list \<Rightarrow> (pystr, inventory) pydict" where
  "load_inventories paths = foldl load_step [] paths"

section \<open>Report builder\<close>

text \<open>
  \<open>union_set = set().union(*inventories.values())\<close>, and the union report, computed
  only when the union is asked for (the flag \<open>union\<close>) and more than one inventory is
  loaded.
\<close>

definition union_set :: "(pystr, inventory) pydict \<Rightarrow> inventory" where
  "union_set inventories = foldl (\<union>) {} (map snd inventories)"

definition union_report :: "pystr \<Rightarrow> (pystr, inventory) pydict \<Rightarrow> bool \<Rightarrow> bool \<Rightarrow> report option" where
  "union_report text inventories union_flag han_only =
     (if union_flag \<and> length inventories > 1
      then Some (coverage_report text (union_set inventories) han_only)
      else None)"

text \<open>
  The unique-OOV string: the keys of \<open>unknown_freq\<close>, sorted by the key
  \<open>(-rep["unknown_freq"][ch], ord(ch))\<close>. \<open>list.sort\<close> is stable, as \<open>sort_key\<close> is.
\<close>

definition unique_oov :: "report \<Rightarrow> pystr" where
  "unique_oov rep =
     sort_key (\<lambda>ch. (- int (dict_get (unknown_freq rep) ch 0), ch))
       (dict_keys (unknown_freq rep))"

text \<open>
  \<open>Counter.most_common(n)\<close> of the Python runtime: the \<open>n\<close> entries with the highest
  counts, from the highest down, entries with equal counts in the order first
  encountered; no entries for \<open>n \<le> 0\<close>.
\<close>

definition most_common :: "int \<Rightarrow> (nat, nat) pydict \<Rightarrow> (nat \<times> nat) list" where
  "most_common n c = take (nat n) (sort_key (\<lambda>kv. - int (snd kv)) c)"

text \<open>The rows of the high-frequency table: \<open>rep["unknown_freq"].most_common(top_unknown)\<close>.\<close>

definition high_frequency :: "report \<Rightarrow> int \<Rightarrow> (nat \<times> nat) list" where
  "high_frequency rep top_unknown = most_common top_unknown (unknown_freq rep)"

text \<open>A slice \<open>xs[:n]\<close>; a negative \<open>n\<close> counts from the end.\<close>

definition slice_to :: "'a list \<Rightarrow> int \<Rightarrow> 'a list" where
  "slice_to xs n = (if n < 0 then take (nat (int (length xs) + n)) xs else take (nat n) xs)"

text \<open>The rows of the low-frequency table: the items sorted by \<open>(count, ord)\<close>, sliced.\<close>

definition low_frequency :: "report \<Rightarrow> int \<Rightarrow> (nat \<times> nat) list" where
  "low_frequency rep top_unknown =
     slice_to (sort_key (\<lambda>kv. (snd kv, fst kv)) (unknown_freq rep)) top_unknown"

text \<open>
  The out-of-vocabulary part of a result block of \<open>build_report_text\<close>: nothing when
  \<open>unknown_chars\<close> is zero, else the unique-OOV string and the rows of the two tables.
\<close>

definition oov_section :: "report \<Rightarrow> int \<Rightarrow> (pystr \<times> (nat \<times> nat) list \<times> (nat \<times> nat) list) option" where
  "oov_section rep top_unknown =
     (if unknown_chars rep \<noteq> 0
      then Some (unique_oov rep, high_frequency rep top_unknown, low_frequency rep top_unknown)
      else None)"

section \<open>Termination of the label search\<close>

lemma str_of_nat_value:
  "foldl (\<lambda>a d. 10 * a + (d - 0x30)) 0 (str_of_nat n) = n"
proof (induction n rule: str_of_nat.induct)
  case (1 n)
  show ?case
  proof (cases "n < 10")
    case True
    then show ?thesis by (simp add: str_of_nat.simps [of n])
  next
    case False
    with 1 show ?thesis by (simp add: str_of_nat.simps [of n])
  qed
qed

lemma str_of_nat_inj: "str_of_nat m = str_of_nat n \<Longrightarrow> m = n"
  by (metis str_of_nat_value)

lemma suffixed_inj:
  assumes "suffixed base m = suffixed base n"
  shows "m = n"
proof -
  from assms have "str_of_nat m = str_of_nat n"
    by (simp add: suffixed_def)
  then show ?thesis by (rule str_of_nat_inj)
qed

lemma finite_suffixed_keys: "finite {m. suffixed base m \<in> set ks}"
proof -
  have "inj (suffixed base)"
    by (rule injI) (rule suffixed_inj)
  then have "finite (suffixed base -` set ks)"
    by (intro finite_vimageI) simp_all
  then show ?thesis by (simp add: vimage_def)
qed

termination find_label
proof (relation "measure (\<lambda>(inventories, base, label, n).
    card {m. n \<le> m \<and> suffixed base m \<in> set (dict_keys inventories)}
      + (if dict_contains inventories label then 1 else 0))")
  show "wf (measure (\<lambda>(inventories :: (pystr, 'a) pydict, base, label, n).
    card {m. n \<le> m \<and> suffixed base m \<in> set (dict_keys inventories)}
      + (if dict_contains inventories label then 1 else 0)))"
    by simp
next
  fix inventories :: "(pystr, 'a) pydict" and base label :: pystr and n :: nat
  assume inside: "dict_contains inventories label"
  let ?K = "set (dict_keys inventories)"
  let ?A = "{m. n \<le> m \<and> suffixed base m \<in> ?K}"
  let ?B = "{m. n + 1 \<le> m \<and> suffixed base m \<in> ?K}"
  have finA: "finite ?A"
    by (rule finite_subset [OF _ finite_suffixed_keys [of base "dict_keys inventories"]]) auto
  have "card ?B + (if dict_contains inventories (suffixed base n) then 1 else 0) \<le> card ?A"
  proof (cases "dict_contains inventories (suffixed base n)")
    case True
    then have "?A = insert n ?B"
      by (auto simp: dict_contains_def)
    moreover have "n \<notin> ?B" by simp
    moreover have "finite ?B"
      by (rule finite_subset [OF _ finA]) auto
    ultimately show ?thesis using True by simp
  next
    case False
    have "?B \<subseteq> ?A" by auto
    then have "card ?B \<le> card ?A" by (rule card_mono [OF finA])
    with False show ?thesis by simp
  qed
  with inside
  show "((inventories, base, suffixed base n, n + 1), (inventories, base, label, n))
        \<in> measure (\<lambda>(inventories, base, label, n).
            card {m. n \<le> m \<and> suffixed base m \<in> set (dict_keys inventories)}
              + (if dict_contains inventories label then 1 else 0))"
    by simp
qed

declare find_label.simps [simp del]

section \<open>Properties of the floating-point operations\<close>

lemma floor_rat_numeral [simp]:
  "\<lfloor>numeral a / numeral b :: rat\<rfloor> = numeral a div numeral b"
  by (metis floor_divide_of_int_eq of_int_numeral)

lemma ceiling_rat_numeral [simp]:
  "\<lceil>numeral a / numeral b :: rat\<rceil> = - (- numeral a div numeral b)"
  using ceiling_divide_eq_div [of "numeral a" "numeral b", where ?'a = rat] by simp

lemma bit_length_Suc_0: "bit_length (Suc 0) = 1"
  by (simp add: bit_length.simps [of "Suc 0"] bit_length.simps [of 0])

lemma bit_length_numeral [simp]:
  "bit_length 0 = 0"
  "bit_length 1 = 1"
  "bit_length (Suc 0) = 1"
  "bit_length (numeral (Num.Bit0 k)) = Suc (bit_length (numeral k))"
  "bit_length (numeral (Num.Bit1 k)) = Suc (bit_length (numeral k))"
  "bit_length (numeral Num.One) = 1"
proof -
  show "bit_length 0 = 0" by (simp add: bit_length.simps)
  show "bit_length 1 = 1" using bit_length_Suc_0 by simp
  show "bit_length (Suc 0) = 1" by (rule bit_length_Suc_0)
  show "bit_length (numeral (Num.Bit0 k)) = Suc (bit_length (numeral k))"
    by (subst bit_length.simps) simp
  show "bit_length (numeral (Num.Bit1 k)) = Suc (bit_length (numeral k))"
    by (subst bit_length.simps) simp
  show "bit_length (numeral Num.One) = 1" using bit_length_Suc_0 by simp
qed

lemma bit_length_upper: "n < 2 ^ bit_length n"
proof (induction n rule: bit_length.induct)
  case (1 n)
  show ?case
  proof (cases "n = 0")
    case True
    then show ?thesis by (simp add: bit_length.simps)
  next
    case False
    with 1 have "n div 2 < 2 ^ bit_length (n div 2)" by simp
    then have "n < 2 * 2 ^ bit_length (n div 2)" by linarith
    with False show ?thesis by (simp add: bit_length.simps [of n])
  qed
qed

lemma bit_length_lower: "0 < n \<Longrightarrow> 2 ^ (bit_length n - 1) \<le> n"
proof (induction n rule: bit_length.induct)
  case (1 n)
  then have n: "n \<noteq> 0" by simp
  show ?case
  proof (cases "n div 2 = 0")
    case True
    with n show ?thesis by (simp add: bit_length.simps [of n] bit_length.simps [of 0])
  next
    case False
    with 1 n have ih: "2 ^ (bit_length (n div 2) - 1) \<le> n div 2" by simp
    from False have pos: "0 < bit_length (n div 2)" by (simp add: bit_length.simps [of "n div 2"])
    have "bit_length n - 1 = Suc (bit_length (n div 2) - 1)"
      using n pos by (simp add: bit_length.simps [of n])
    moreover have "2 * 2 ^ (bit_length (n div 2) - 1) \<le> n" using ih by linarith
    ultimately show ?thesis by simp
  qed
qed

lemma binary_exponent_le:
  assumes "0 < x"
  shows "power_int 2 (binary_exponent x) \<le> x"
proof (cases "1 \<le> x")
  case True
  define n where "n = nat \<lfloor>x\<rfloor>"
  from True have fl: "1 \<le> \<lfloor>x\<rfloor>" by simp
  then have npos: "0 < n" by (simp add: n_def)
  then have blpos: "0 < bit_length n" by (simp add: bit_length.simps [of n])
  have "binary_exponent x = int (bit_length n - 1)"
    using True blpos by (simp add: binary_exponent_def n_def)
  then have "power_int 2 (binary_exponent x) = (2 :: rat) ^ (bit_length n - 1)" by simp
  also have "\<dots> = of_nat (2 ^ (bit_length n - 1))" by simp
  also have "\<dots> \<le> of_nat n" using bit_length_lower [OF npos] by (simp only: of_nat_le_iff)
  also have "\<dots> = of_int \<lfloor>x\<rfloor>" using fl by (simp add: n_def)
  also have "\<dots> \<le> x" by simp
  finally show ?thesis .
next
  case False
  define m where "m = nat (\<lceil>1 / x\<rceil> - 1)"
  define k where "k = bit_length m"
  from assms False have "1 < 1 / x" by (simp add: field_simps)
  then have c: "1 \<le> \<lceil>1 / x\<rceil> - 1" by (simp add: less_ceiling_iff) 
  have "m < 2 ^ k" unfolding k_def by (rule bit_length_upper)
  then have "int m < 2 ^ k" by (metis of_nat_less_iff of_nat_numeral of_nat_power)
  moreover from c have "0 \<le> \<lceil>1 / x\<rceil> - 1" by linarith
  then have "int m = \<lceil>1 / x\<rceil> - 1" unfolding m_def by (rule nat_0_le)
  ultimately have "\<lceil>1 / x\<rceil> \<le> 2 ^ k" by linarith
  then have "1 / x \<le> of_int (2 ^ k)" by (simp only: ceiling_le_iff)
  then have "1 / x \<le> 2 ^ k" by simp
  with assms have "1 / 2 ^ k \<le> x" by (simp add: field_simps)
  moreover have "binary_exponent x = - int k"
    using False by (simp add: binary_exponent_def m_def k_def)
  ultimately show ?thesis by (simp add: power_int_minus_divide)
qed

lemma binary_exponent_less:
  assumes "0 < x"
  shows "x < power_int 2 (binary_exponent x + 1)"
proof (cases "1 \<le> x")
  case True
  define n where "n = nat \<lfloor>x\<rfloor>"
  from True have fl: "1 \<le> \<lfloor>x\<rfloor>" by simp
  have "n < 2 ^ bit_length n" by (rule bit_length_upper)
  then have "int n + 1 \<le> 2 ^ bit_length n"
    by (metis of_nat_less_iff of_nat_numeral of_nat_power zless_imp_add1_zle)
  moreover have "int n = \<lfloor>x\<rfloor>" using fl by (simp add: n_def)
  ultimately have "\<lfloor>x\<rfloor> + 1 \<le> 2 ^ bit_length n" by simp
  then have "(of_int (\<lfloor>x\<rfloor> + 1) :: rat) \<le> of_int (2 ^ bit_length n)"
    by (simp only: of_int_le_iff)
  moreover have "x < of_int (\<lfloor>x\<rfloor> + 1)" by linarith
  ultimately have "x < 2 ^ bit_length n" by simp
  moreover have "binary_exponent x + 1 = int (bit_length n)"
    using True by (simp add: binary_exponent_def n_def)
  ultimately show ?thesis by simp
next
  case False
  define m where "m = nat (\<lceil>1 / x\<rceil> - 1)"
  define k where "k = bit_length m"
  from assms False have "1 < 1 / x" by (simp add: field_simps)
  then have c: "1 \<le> \<lceil>1 / x\<rceil> - 1" by (simp add: less_ceiling_iff)
  then have "0 \<le> \<lceil>1 / x\<rceil> - 1" by linarith
  then have mi: "int m = \<lceil>1 / x\<rceil> - 1" unfolding m_def by (rule nat_0_le)
  with c have mpos: "0 < m" by linarith
  then have kpos: "0 < k" by (simp add: k_def bit_length.simps [of m])
  have "2 ^ (k - 1) \<le> m" unfolding k_def using mpos by (rule bit_length_lower)
  then have "(2 :: int) ^ (k - 1) \<le> int m"
    by (metis of_nat_le_iff of_nat_numeral of_nat_power)
  with mi have "(of_int (2 ^ (k - 1)) :: rat) \<le> of_int (\<lceil>1 / x\<rceil> - 1)"
    by (simp only: of_int_le_iff)
  moreover have "of_int (\<lceil>1 / x\<rceil> - 1) < 1 / x" by linarith
  ultimately have "2 ^ (k - 1) < 1 / x" by simp
  with assms have "x < 1 / 2 ^ (k - 1)" by (simp add: field_simps)
  moreover have "binary_exponent x + 1 = - int (k - 1)"
    using False kpos by (simp add: binary_exponent_def m_def k_def)
  ultimately show ?thesis by (simp only: power_int_minus_divide power_int_of_nat)
qed

lemma round_half_even_floor: "\<lfloor>x\<rfloor> \<le> round_half_even x"
  by (simp add: round_half_even_def Let_def)

lemma round_half_even_ceiling: "round_half_even x \<le> \<lceil>x\<rceil>"
proof -
  have "\<lfloor>x\<rfloor> + 1 \<le> \<lceil>x\<rceil>" if "x \<noteq> of_int \<lfloor>x\<rfloor>"
    using that by (metis ceiling_altdef zle_add1_eq_le order_refl add.commute)
  moreover have "\<lfloor>x\<rfloor> \<le> \<lceil>x\<rceil>" by (simp add: floor_le_ceiling)
  ultimately show ?thesis
    by (auto simp add: round_half_even_def Let_def)
qed

lemma round_half_even_error: "\<bar>of_int (round_half_even x) - x\<bar> \<le> 1 / 2"
proof -
  have "of_int \<lfloor>x\<rfloor> \<le> x" "x < of_int \<lfloor>x\<rfloor> + 1" by linarith+
  then show ?thesis
    by (auto simp add: round_half_even_def Let_def abs_le_iff)
qed


lemma power_int_2_le_D:
  assumes "power_int (2 :: rat) a \<le> power_int 2 b"
  shows "a \<le> b"
proof (rule ccontr)
  assume "\<not> a \<le> b"
  then have "b < a" by simp
  then have "power_int (2 :: rat) b < power_int 2 a"
    by (rule power_int_strict_increasing) simp
  with assms show False by simp
qed

lemma round_double_pos:
  assumes "0 < x"
  shows "round_double x =
    of_int (round_half_even (x / power_int 2 (max (binary_exponent x) (- 1022) - 52)))
      * power_int 2 (max (binary_exponent x) (- 1022) - 52)"
  using assms by (simp add: round_double_def Let_def)

lemma round_double_error:
  assumes "0 \<le> x" and "power_int 2 E \<ge> x" and "- 1022 \<le> E"
  shows "\<bar>round_double x - x\<bar> \<le> power_int 2 (E - 53)"
proof (cases "x = 0")
  case True
  then show ?thesis by (simp add: round_double_def)
next
  case False
  with assms have pos: "0 < x" by simp
  define e where "e = max (binary_exponent x) (- 1022)"
  define u :: rat where "u = power_int 2 (e - 52)"
  have upos: "0 < u" by (simp add: u_def)
  have "power_int 2 (binary_exponent x) \<le> (power_int 2 E :: rat)"
    using binary_exponent_le [OF pos] assms(2) by linarith
  then have "binary_exponent x \<le> E" by (rule power_int_2_le_D)
  with assms(3) have eE: "e \<le> E" by (simp add: e_def)
  have rd: "round_double x = of_int (round_half_even (x / u)) * u"
    using round_double_pos [OF pos] by (simp add: e_def u_def)
  have "round_double x - x = (of_int (round_half_even (x / u)) - x / u) * u"
    using upos by (simp add: rd field_simps)
  then have "\<bar>round_double x - x\<bar> = \<bar>of_int (round_half_even (x / u)) - x / u\<bar> * u"
    using upos by (simp add: abs_mult)
  also have "\<dots> \<le> 1 / 2 * u"
    using round_half_even_error [of "x / u"] upos by (intro mult_right_mono) simp_all
  also have "\<dots> = power_int 2 (e - 53)"
  proof -
    have "u = power_int 2 ((e - 53) + 1)" by (simp add: u_def)
    also have "\<dots> = power_int 2 (e - 53) * power_int 2 1"
      by (rule power_int_add) simp
    finally have "u = power_int 2 (e - 53) * 2" by simp
    then show ?thesis by simp
  qed
  also have "\<dots> \<le> power_int 2 (E - 53)"
    using eE by (intro power_int_increasing) simp_all
  finally show ?thesis .
qed

lemma round_double_nonneg:
  assumes "0 \<le> x"
  shows "0 \<le> round_double x"
proof (cases "x = 0")
  case True
  then show ?thesis by (simp add: round_double_def)
next
  case False
  with assms have pos: "0 < x" by simp
  define u :: rat where "u = power_int 2 (max (binary_exponent x) (- 1022) - 52)"
  have upos: "0 < u" by (simp add: u_def)
  with pos have "0 \<le> x / u" by simp
  then have "0 \<le> \<lfloor>x / u\<rfloor>" by simp
  with round_half_even_floor [of "x / u"] have "0 \<le> round_half_even (x / u)" by linarith
  with upos show ?thesis
    using round_double_pos [OF pos] by (simp add: u_def)
qed

lemma round_double_le:
  assumes "0 \<le> x" and "x \<le> of_int m" and "(of_int m :: rat) \<le> power_int 2 E" and "- 1022 \<le> E" and "E \<le> 52"
  shows "round_double x \<le> of_int m"
proof (cases "x = 0")
  case True
  with assms show ?thesis by (simp add: round_double_def)
next
  case False
  with assms have pos: "0 < x" by simp
  define e where "e = max (binary_exponent x) (- 1022)"
  define u :: rat where "u = power_int 2 (e - 52)"
  have upos: "0 < u" by (simp add: u_def)
  have "power_int 2 (binary_exponent x) \<le> (power_int 2 E :: rat)"
    using binary_exponent_le [OF pos] assms(2,3) by linarith
  then have "binary_exponent x \<le> E" by (rule power_int_2_le_D)
  with assms(4) have eE: "e \<le> E" by (simp add: e_def)
  with assms(5) have e52: "0 \<le> 52 - e" by simp
  have inv: "1 / u = of_int (2 ^ nat (52 - e))"
  proof -
    have "1 / u = power_int 2 (- (e - 52))"
      unfolding u_def by (simp only: power_int_minus_divide)
    also have "- (e - 52) = int (nat (52 - e))" using e52 by simp
    finally show ?thesis by (simp only: power_int_of_nat) simp
  qed
  have "x / u = x * (1 / u)" by simp
  also have "\<dots> \<le> of_int m * (1 / u)" using assms(2) upos by (intro mult_right_mono) simp_all
  also have "\<dots> = of_int (m * 2 ^ nat (52 - e))" by (simp only: inv of_int_mult)
  finally have "\<lceil>x / u\<rceil> \<le> m * 2 ^ nat (52 - e)" by (simp only: ceiling_le_iff)
  with round_half_even_ceiling [of "x / u"]
  have "round_half_even (x / u) \<le> m * 2 ^ nat (52 - e)" by linarith
  then have "(of_int (round_half_even (x / u)) :: rat) \<le> of_int (m * 2 ^ nat (52 - e))"
    by (simp only: of_int_le_iff)
  then have "of_int (round_half_even (x / u)) * u \<le> of_int (m * 2 ^ nat (52 - e)) * u"
    using upos by (intro mult_right_mono) simp_all
  also have "\<dots> = of_int m * ((1 / u) * u)" by (simp only: inv of_int_mult mult.assoc)
  also have "\<dots> = of_int m" using upos by simp
  finally show ?thesis
    using round_double_pos [OF pos] by (simp add: e_def u_def)
qed

lemma percentage_accuracy:
  assumes "k \<le> t" and "0 < t"
  shows "\<bar>float_mul (int_truediv k t) 100 - of_nat k / of_nat t * 100\<bar> \<le> 1 / 2 ^ 45"
    and "0 \<le> float_mul (int_truediv k t) 100"
    and "float_mul (int_truediv k t) 100 \<le> 100"
proof -
  define q :: rat where "q = of_nat k / of_nat t"
  define y where "y = round_double q"
  define p where "p = round_double (y * 100)"
  have q0: "0 \<le> q" by (simp add: q_def)
  have q1: "q \<le> 1" using assms by (simp add: q_def)
  have y0: "0 \<le> y" unfolding y_def using q0 by (rule round_double_nonneg)
  have y1: "y \<le> 1" unfolding y_def
    using round_double_le [of q 1 0] q0 q1 by simp
  have ey: "\<bar>y - q\<bar> \<le> power_int 2 (0 - 53)" unfolding y_def
    using round_double_error [of q 0] q0 q1 by simp
  have z0: "0 \<le> y * 100" using y0 by simp
  have z1: "y * 100 \<le> 100" using y1 by simp
  have p0: "0 \<le> p" unfolding p_def using z0 by (rule round_double_nonneg)
  have p1: "p \<le> 100" unfolding p_def
    using round_double_le [of "y * 100" 100 7] z0 z1 by simp
  have ep: "\<bar>p - y * 100\<bar> \<le> power_int 2 (7 - 53)" unfolding p_def
    using round_double_error [of "y * 100" 7] z0 z1 by simp
  have "p - q * 100 = (p - y * 100) + 100 * (y - q)" by simp
  then have "\<bar>p - q * 100\<bar> \<le> \<bar>p - y * 100\<bar> + \<bar>100 * (y - q)\<bar>"
    by (simp only: abs_triangle_ineq)
  also have "\<bar>100 * (y - q)\<bar> = 100 * \<bar>y - q\<bar>" by (simp only: abs_mult abs_numeral)
  finally have "\<bar>p - q * 100\<bar> \<le> \<bar>p - y * 100\<bar> + 100 * \<bar>y - q\<bar>" .
  also have "\<dots> \<le> power_int 2 (7 - 53) + 100 * power_int 2 (0 - 53)"
    using ep ey by (intro add_mono mult_left_mono) simp_all
  also have "\<dots> \<le> 1 / 2 ^ 45" by (simp add: power_int_minus_divide)
  finally have "\<bar>p - q * 100\<bar> \<le> 1 / 2 ^ 45" .
  then show "\<bar>float_mul (int_truediv k t) 100 - of_nat k / of_nat t * 100\<bar> \<le> 1 / 2 ^ 45"
    by (simp add: float_mul_def int_truediv_def p_def y_def q_def)
  from p0 show "0 \<le> float_mul (int_truediv k t) 100"
    by (simp add: float_mul_def int_truediv_def p_def y_def q_def)
  from p1 show "float_mul (int_truediv k t) 100 \<le> 100"
    by (simp add: float_mul_def int_truediv_def p_def y_def q_def)
qed

text \<open>Percentages that the two operations compute without rounding.\<close>

lemma percentage_none: "0 < t \<Longrightarrow> float_mul (int_truediv 0 t) 100 = 0"
  by (simp add: float_mul_def int_truediv_def round_double_def)

lemma percentage_all: "0 < t \<Longrightarrow> float_mul (int_truediv t t) 100 = 100"
  by (simp add: float_mul_def int_truediv_def round_double_def binary_exponent_def
      round_half_even_def Let_def power_int_minus_divide)

lemma percentage_half: "float_mul (int_truediv (Suc 0) (Suc (Suc 0))) 100 = 50"
  by (simp add: float_mul_def int_truediv_def round_double_def binary_exponent_def
      round_half_even_def Let_def power_int_minus_divide)

text \<open>Percentages that are rounded: 33.33333333333333, 66.66666666666666,
  55.00000000000001 and 14.285714285714285 in the notation of the runtime.\<close>

lemma percentage_rounded:
  "float_mul (int_truediv 1 3) 100 = 2345624805922133 / 70368744177664"
  "float_mul (int_truediv 2 3) 100 = 2345624805922133 / 35184372088832"
  "float_mul (int_truediv 11 20) 100 = 7740561859543041 / 140737488355328"
  "float_mul (int_truediv 1 7) 100 = 2010535547933257 / 140737488355328"
  by (simp_all add: float_mul_def int_truediv_def round_double_def binary_exponent_def
      round_half_even_def Let_def power_int_minus_divide)

section \<open>Properties of the coverage analyzer\<close>

lemma filter_partition_length:
  "length (filter P xs) + length (filter (\<lambda>x. \<not> P x) xs) = length xs"
  by (induction xs) auto

lemma filter_mono_length:
  "(\<And>x. P x \<Longrightarrow> Q x) \<Longrightarrow> length (filter P xs) \<le> length (filter Q xs)"
  by (induction xs) auto

lemma counter_add_total:
  "sum_list (map snd (counter_add d elem)) = sum_list (map snd d) + 1"
  unfolding counter_add_def by (induction d) auto

lemma foldl_counter_add_total:
  "sum_list (map snd (foldl counter_add d xs)) = sum_list (map snd d) + length xs"
  by (induction xs arbitrary: d) (simp_all add: counter_add_total)

lemma Counter_total: "sum_list (map snd (Counter xs)) = length xs"
  by (simp add: Counter_def foldl_counter_add_total)

text \<open>
  Claim C1. For every text, every inventory and either value of \<open>han_only\<close>, the report
  of \<open>coverage_report\<close> has \<open>known_chars + unknown_chars = total_chars\<close>.
\<close>

theorem C1_known_plus_unknown_is_total:
  "known_chars (coverage_report T I han_only)
     + unknown_chars (coverage_report T I han_only)
   = total_chars (coverage_report T I han_only)"
  by (simp add: coverage_report_def Let_def filter_partition_length)

text \<open>
  Claim C2. \<open>coverage_pct\<close> is \<open>known_count / total * 100\<close>, evaluated in floating-point
  arithmetic, when the counted-character total is positive, and exactly 100 when it is
  zero; the total is zero for the empty text and for a text all of whose characters are
  filtered out. The float differs from the exact quotient by at most \<open>2 ^ -45\<close> and
  lies between 0 and 100.
\<close>

theorem C2_coverage_pct:
  "coverage_pct (coverage_report T I han_only) =
     (if 0 < total_chars (coverage_report T I han_only)
      then float_mul (int_truediv (known_chars (coverage_report T I han_only))
                                  (total_chars (coverage_report T I han_only))) 100
      else 100)
   \<and> coverage_pct (coverage_report [] I han_only) = 100
   \<and> ((\<forall>ch \<in> set T. (han_only \<and> is_han [ch] = Inr False) \<or> py_strip [ch] = [])
        \<longrightarrow> total_chars (coverage_report T I han_only) = 0
          \<and> coverage_pct (coverage_report T I han_only) = 100)
   \<and> (0 < total_chars (coverage_report T I han_only)
        \<longrightarrow> \<bar>coverage_pct (coverage_report T I han_only)
              - of_nat (known_chars (coverage_report T I han_only))
                  / of_nat (total_chars (coverage_report T I han_only)) * 100\<bar>
            \<le> 1 / 2 ^ 45)
   \<and> 0 \<le> coverage_pct (coverage_report T I han_only)
   \<and> coverage_pct (coverage_report T I han_only) \<le> 100"
proof -
  define chars where "chars = iter_text_chars T han_only"
  define k where "k = length (filter (\<lambda>ch. ch \<in> I) chars)"
  define t where "t = length chars"
  have kt: "k \<le> t" by (simp add: k_def t_def)
  have total: "total_chars (coverage_report T I han_only) = t"
    by (simp add: coverage_report_def Let_def t_def chars_def)
  have known: "known_chars (coverage_report T I han_only) = k"
    by (simp add: coverage_report_def Let_def k_def chars_def)
  have pct: "coverage_pct (coverage_report T I han_only) =
      (if 0 < t then float_mul (int_truediv k t) 100 else 100)"
    by (simp add: coverage_report_def Let_def k_def t_def chars_def)
  have filtered: "iter_text_chars u h = []"
    if "\<forall>ch \<in> set u. (h \<and> is_han [ch] = Inr False) \<or> py_strip [ch] = []" for u h
    using that by (induction u) auto
  have a: "coverage_pct (coverage_report T I han_only) =
     (if 0 < total_chars (coverage_report T I han_only)
      then float_mul (int_truediv (known_chars (coverage_report T I han_only))
                                  (total_chars (coverage_report T I han_only))) 100
      else 100)"
    by (simp only: pct total known)
  have b: "coverage_pct (coverage_report [] I han_only) = 100"
    by (simp add: coverage_report_def Let_def)
  have c: "(\<forall>ch \<in> set T. (han_only \<and> is_han [ch] = Inr False) \<or> py_strip [ch] = [])
        \<longrightarrow> total_chars (coverage_report T I han_only) = 0
          \<and> coverage_pct (coverage_report T I han_only) = 100"
    using filtered [of T han_only] by (simp add: coverage_report_def Let_def)
  have d: "0 < total_chars (coverage_report T I han_only)
        \<longrightarrow> \<bar>coverage_pct (coverage_report T I han_only)
              - of_nat (known_chars (coverage_report T I han_only))
                  / of_nat (total_chars (coverage_report T I han_only)) * 100\<bar>
            \<le> 1 / 2 ^ 45"
    using percentage_accuracy(1) [OF kt] by (simp add: pct total known)
  have e: "0 \<le> coverage_pct (coverage_report T I han_only)"
    using percentage_accuracy(2) [OF kt] by (simp add: pct)
  have f: "coverage_pct (coverage_report T I han_only) \<le> 100"
    using percentage_accuracy(3) [OF kt] by (simp add: pct)
  from a b c d e f show ?thesis by (intro conjI)
qed

theorem C2_coverage_pct_witness:
  "is_han [0x61] = Inr False \<and> is_han [0x20] = Inr False \<and> py_strip [0x3000] = []
   \<and> total_chars (coverage_report [0x61, 0x20, 0x3000] {0x4E00} True) = 0
   \<and> coverage_pct (coverage_report [0x61, 0x20, 0x3000] {0x4E00} True) = 100
   \<and> coverage_pct (coverage_report [0x4E00, 0x4E8C, 0x4E09, 0x56DB] {0x4E00, 0x4E8C, 0x4E09} True)
       = 75
   \<and> total_chars (coverage_report [0x4E00, 0x4E8C, 0x4E09] {0x4E00} True) = 3
   \<and> known_chars (coverage_report [0x4E00, 0x4E8C, 0x4E09] {0x4E00} True) = 1
   \<and> coverage_pct (coverage_report [0x4E00, 0x4E8C, 0x4E09] {0x4E00} True)
       = 2345624805922133 / 70368744177664
   \<and> \<bar>coverage_pct (coverage_report [0x4E00, 0x4E8C, 0x4E09] {0x4E00} True) - 1 / 3 * 100\<bar>
       \<le> 1 / 2 ^ 45"
proof -
  have chars1: "iter_text_chars [0x61, 0x20, 0x3000] True = []"
    by (simp add: HAN_RANGES_def py_strip_def py_isspace_def)
  have chars2: "iter_text_chars [0x4E00, 0x4E8C, 0x4E09, 0x56DB] True
      = [0x4E00, 0x4E8C, 0x4E09, 0x56DB]"
    by (simp add: HAN_RANGES_def py_strip_def py_isspace_def)
  have chars3: "iter_text_chars [0x4E00, 0x4E8C, 0x4E09] True = [0x4E00, 0x4E8C, 0x4E09]"
    by (simp add: HAN_RANGES_def py_strip_def py_isspace_def)
  have q34: "float_mul (int_truediv (Suc (Suc (Suc 0))) (Suc (Suc (Suc (Suc 0))))) 100 = 75"
    by (simp add: float_mul_def int_truediv_def round_double_def binary_exponent_def
        round_half_even_def Let_def power_int_minus_divide)
  have q13: "float_mul (int_truediv (Suc 0) (Suc (Suc (Suc 0)))) 100
      = 2345624805922133 / 70368744177664"
    by (simp add: float_mul_def int_truediv_def round_double_def binary_exponent_def
        round_half_even_def Let_def power_int_minus_divide)
  have pre: "is_han [0x61] = Inr False \<and> is_han [0x20] = Inr False \<and> py_strip [0x3000] = []"
    by (simp add: HAN_RANGES_def py_strip_def py_isspace_def)
  have filtered: "\<forall>ch \<in> set [0x61, 0x20, 0x3000].
      (True \<and> is_han [ch] = Inr False) \<or> py_strip [ch] = []"
    by (simp add: HAN_RANGES_def py_strip_def py_isspace_def)
  have t3: "total_chars (coverage_report [0x4E00, 0x4E8C, 0x4E09] {0x4E00} True) = 3"
    by (simp add: coverage_report_def Let_def chars3 del: iter_text_chars.simps)
  have k3: "known_chars (coverage_report [0x4E00, 0x4E8C, 0x4E09] {0x4E00} True) = 1"
    by (simp add: coverage_report_def Let_def chars3 del: iter_text_chars.simps)
  have p2: "coverage_pct
      (coverage_report [0x4E00, 0x4E8C, 0x4E09, 0x56DB] {0x4E00, 0x4E8C, 0x4E09} True) = 75"
    by (simp add: coverage_report_def Let_def chars2 q34 del: iter_text_chars.simps)
  have p3: "coverage_pct (coverage_report [0x4E00, 0x4E8C, 0x4E09] {0x4E00} True)
      = 2345624805922133 / 70368744177664"
    by (simp add: coverage_report_def Let_def chars3 q13 del: iter_text_chars.simps)
  note th1 = C2_coverage_pct [of "[0x61, 0x20, 0x3000]" "{0x4E00}" True]
  note th3 = C2_coverage_pct [of "[0x4E00, 0x4E8C, 0x4E09]" "{0x4E00}" True]
  note r1 = mp [OF th1 [THEN conjunct2, THEN conjunct2, THEN conjunct1] filtered]
  note t1 = r1 [THEN conjunct1]
  note p1 = r1 [THEN conjunct2]
  have pos: "0 < total_chars (coverage_report [0x4E00, 0x4E8C, 0x4E09] {0x4E00} True)"
    by (simp add: t3)
  note r3 = mp [OF th3 [THEN conjunct2, THEN conjunct2, THEN conjunct2, THEN conjunct1] pos]
  have acc: "\<bar>coverage_pct (coverage_report [0x4E00, 0x4E8C, 0x4E09] {0x4E00} True)
      - 1 / 3 * 100\<bar> \<le> 1 / 2 ^ 45"
    using r3 by (simp add: t3 k3)
  from pre t1 p1 p2 t3 k3 p3 acc show ?thesis by (intro conjI) simp_all
qed

text \<open>
  Claim C8. The number of counted characters with \<open>han_only = True\<close> is at most the
  number with \<open>han_only = False\<close> on the same text.
\<close>

theorem C8_han_only_counts_fewer:
  "length (iter_text_chars T True) \<le> length (iter_text_chars T False)
   \<and> total_chars (coverage_report T I True)
       \<le> total_chars (coverage_report T I False)"
proof -
  have "length (iter_text_chars T True) \<le> length (iter_text_chars T False)"
    by (induction T) auto
  then show ?thesis by (simp add: coverage_report_def Let_def)
qed

text \<open>
  Claim C10. In every report the occurrence counts of \<open>known_freq\<close> sum to
  \<open>known_chars\<close> and those of \<open>unknown_freq\<close> sum to \<open>unknown_chars\<close>.
\<close>

theorem C10_frequency_sums:
  "sum_list (map snd (known_freq (coverage_report T I han_only)))
     = known_chars (coverage_report T I han_only)
   \<and> sum_list (map snd (unknown_freq (coverage_report T I han_only)))
     = unknown_chars (coverage_report T I han_only)"
  by (simp add: coverage_report_def Let_def Counter_total)

text \<open>
  Claim C7. For every text and any two inventories, the known count against the union
  of the inventories is at least the larger of the two known counts; the union report
  of \<open>build_report_text\<close> for two loaded inventories is the report against that union.
\<close>

theorem C7_union_monotone:
  "max (known_chars (coverage_report T I1 han_only))
       (known_chars (coverage_report T I2 han_only))
     \<le> known_chars (coverage_report T (I1 \<union> I2) han_only)
   \<and> union_report T [(l1, I1), (l2, I2)] True han_only
       = Some (coverage_report T (I1 \<union> I2) han_only)"
  by (simp add: coverage_report_def Let_def union_report_def union_set_def filter_mono_length)

section \<open>Properties of the classifier\<close>

lemma scan_ranges_iff:
  "scan_ranges rs cp \<longleftrightarrow> (\<exists>(start, stop) \<in> set rs. start \<le> cp \<and> cp \<le> stop)"
  by (induction rs cp rule: scan_ranges.induct) auto

text \<open>
  Claim C6. \<open>is_han\<close> returns false for the empty input, and for a single character it
  returns true exactly when the code point lies in one of the twelve inclusive ranges of
  the range table.
\<close>

theorem C6_is_han:
  "is_han [] = Inr False
   \<and> is_han [ch] = Inr (\<exists>(start, stop) \<in> set HAN_RANGES. start \<le> ch \<and> ch \<le> stop)
   \<and> length HAN_RANGES = 12"
  by (simp add: scan_ranges_iff) (simp add: HAN_RANGES_def)

theorem C6_is_han_witness:
  "is_han [0x4E00] = Inr True \<and> is_han [0x41] = Inr False \<and> is_han [0x2EBF0] = Inr True"
  using C6_is_han [of "0x4E00"] C6_is_han [of "0x41"] C6_is_han [of "0x2EBF0"]
  by (simp add: HAN_RANGES_def)

lemma ascending_later_start:
  "ascending_nonoverlapping (r # rs) \<Longrightarrow> \<forall>(start, stop) \<in> set (r # rs). start \<le> stop
     \<Longrightarrow> \<forall>(start, stop) \<in> set rs. snd r < start"
proof (induction rs arbitrary: r)
  case Nil
  then show ?case by simp
next
  case (Cons r' rs)
  from Cons.prems have first: "snd r < fst r'" and rest: "ascending_nonoverlapping (r' # rs)"
    by simp_all
  from Cons.prems have wf: "\<forall>(start, stop) \<in> set (r' # rs). start \<le> stop"
    by simp
  from Cons.prems have "fst r' \<le> snd r'"
    by (cases r') simp
  with first have "snd r < snd r'" by simp
  moreover from Cons.IH [OF rest wf] have "\<forall>(start, stop) \<in> set rs. snd r' < start" .
  ultimately have "\<forall>(start, stop) \<in> set rs. snd r < start"
    by fastforce
  with first show ?case by (cases r') simp
qed

lemma ascending_at_most_one:
  "ascending_nonoverlapping rs \<Longrightarrow> \<forall>(start, stop) \<in> set rs. start \<le> stop
     \<Longrightarrow> length (filter (\<lambda>(start, stop). start \<le> cp \<and> cp \<le> stop) rs) \<le> 1"
proof (induction rs)
  case Nil
  then show ?case by simp
next
  case (Cons r rs)
  from Cons.prems have tail: "ascending_nonoverlapping rs"
    by (cases rs) simp_all
  from Cons.prems have wf: "\<forall>(start, stop) \<in> set rs. start \<le> stop"
    by simp
  note IH = Cons.IH [OF tail wf]
  show ?case
  proof (cases "fst r \<le> cp \<and> cp \<le> snd r")
    case True
    from ascending_later_start [OF Cons.prems]
    have "\<forall>(start, stop) \<in> set rs. snd r < start" .
    with True have "\<forall>(start, stop) \<in> set rs. \<not> (start \<le> cp \<and> cp \<le> stop)"
      by fastforce
    then have "filter (\<lambda>(start, stop). start \<le> cp \<and> cp \<le> stop) rs = []"
      by (auto simp: filter_empty_conv)
    then show ?thesis by simp
  next
    case False
    with IH show ?thesis by (cases r) auto
  qed
qed

lemma length_filter_sort_key:
  "length (filter P (sort_key f xs)) = length (filter P xs)"
proof -
  have "mset (filter P (sort_key f xs)) = mset (filter P xs)"
    by simp
  then show ?thesis by (metis size_mset)
qed

text \<open>
  Claim C5, as amended. The range table is a list of twelve inclusive intervals
  (start at most end) no two of which overlap: no code point lies in two of them. The
  table is not in ascending order as listed: the first ten entries (Extension A to
  Extension H) ascend and the last two (Extension I, Extension J) ascend, but
  Extension I starts below the end of Extension H. Sorted by start, the table is in
  ascending, non-overlapping order.
\<close>

theorem C5_ranges_disjoint:
  "length HAN_RANGES = 12
   \<and> (\<forall>(start, stop) \<in> set HAN_RANGES. start \<le> stop)
   \<and> (\<forall>cp. length (filter (\<lambda>(start, stop). start \<le> cp \<and> cp \<le> stop) HAN_RANGES) \<le> 1)
   \<and> ascending_nonoverlapping (take 10 HAN_RANGES)
   \<and> ascending_nonoverlapping (drop 10 HAN_RANGES)
   \<and> ascending_nonoverlapping (sort_key fst HAN_RANGES)"
proof -
  have len: "length HAN_RANGES = 12"
    by (simp add: HAN_RANGES_def)
  have wf: "\<forall>(start, stop) \<in> set HAN_RANGES. start \<le> stop"
    by (simp add: HAN_RANGES_def)
  have sorted_asc: "ascending_nonoverlapping (sort_key fst HAN_RANGES)"
    by (simp add: HAN_RANGES_def)
  have wf_sorted: "\<forall>(start, stop) \<in> set (sort_key fst HAN_RANGES). start \<le> stop"
    using wf by simp
  have one: "length (filter (\<lambda>(start, stop). start \<le> cp \<and> cp \<le> stop) HAN_RANGES) \<le> 1" for cp
    using ascending_at_most_one [OF sorted_asc wf_sorted, of cp]
    by (simp only: length_filter_sort_key)
  have first_ten: "ascending_nonoverlapping (take 10 HAN_RANGES)"
    by (simp add: HAN_RANGES_def)
  have last_two: "ascending_nonoverlapping (drop 10 HAN_RANGES)"
    by (simp add: HAN_RANGES_def)
  from len wf one first_ten last_two sorted_asc show ?thesis by blast
qed

theorem C5_ranges_disjoint_witness:
  "(0x31350, 0x323AF) \<in> set HAN_RANGES \<and> (0x31350 :: nat) \<le> 0x323AF
   \<and> length (filter (\<lambda>(start, stop). start \<le> 0x2EC00 \<and> 0x2EC00 \<le> stop) HAN_RANGES) \<le> 1
   \<and> ascending_nonoverlapping (sort_key fst HAN_RANGES)"
  using C5_ranges_disjoint by (simp add: HAN_RANGES_def)

text \<open>
  Claim C5 as stated fails: the table as listed is not in ascending, non-overlapping
  order, since Extension I (0x2EBF0) follows Extension H (ending at 0x323AF).
\<close>

theorem C5_not_ascending: "\<not> ascending_nonoverlapping HAN_RANGES"
  by (simp add: HAN_RANGES_def)

section \<open>Properties of the report builder\<close>

text \<open>
  Claim C3 fails on the code. For the text of the two characters U+7532, U+4E59 (in
  this order, each once) and the empty inventory, the unique-OOV string is in the
  canonical order (U+4E59 before U+7532, the tie broken by code point), but the
  high-frequency table lists U+7532 first: \<open>most_common\<close> keeps tied entries in the order
  first encountered. So the table is not the first \<open>N\<close> entries of the canonical order,
  for \<open>N = 1\<close> and for the default \<open>N = 15\<close>.
\<close>

theorem C3_top_n_tie_order:
  "oov_section (coverage_report [0x7532, 0x4E59] {} True) 15
     = Some ([0x4E59, 0x7532], [(0x7532, 1), (0x4E59, 1)], [(0x4E59, 1), (0x7532, 1)])
   \<and> map fst (high_frequency (coverage_report [0x7532, 0x4E59] {} True) 15)
       \<noteq> take 15 (unique_oov (coverage_report [0x7532, 0x4E59] {} True))
   \<and> map fst (high_frequency (coverage_report [0x7532, 0x4E59] {} True) 1)
       \<noteq> take 1 (unique_oov (coverage_report [0x7532, 0x4E59] {} True))"
  by (simp add: coverage_report_def Let_def HAN_RANGES_def py_strip_def py_isspace_def
      Counter_def counter_add_def oov_section_def unique_oov_def high_frequency_def
      low_frequency_def slice_to_def most_common_def dict_keys_def)

section \<open>Properties of the inventory loader\<close>

lemma dict_set_fresh: "k \<notin> set (dict_keys d) \<Longrightarrow> dict_set d k v = d @ [(k, v)]"
  by (induction d) (auto simp: dict_keys_def)

lemma find_label_rule:
  "\<not> dict_contains d (find_label d base label n)
   \<and> (if \<not> dict_contains d label then find_label d base label n = label
      else \<exists>k\<ge>n. find_label d base label n = suffixed base k
             \<and> (\<forall>m. n \<le> m \<and> m < k \<longrightarrow> dict_contains d (suffixed base m)))"
proof (induction d base label n rule: find_label.induct)
  case (1 d base label n)
  show ?case
  proof (cases "dict_contains d label")
    case False
    then show ?thesis by (simp add: find_label.simps [of d base label n])
  next
    case True
    let ?r = "find_label d base (suffixed base n) (n + 1)"
    have eq: "find_label d base label n = ?r"
      using True by (simp add: find_label.simps [of d base label n])
    from 1 [OF True] have fresh: "\<not> dict_contains d ?r"
      and shape: "if \<not> dict_contains d (suffixed base n) then ?r = suffixed base n
        else \<exists>k\<ge>n + 1. ?r = suffixed base k
               \<and> (\<forall>m. n + 1 \<le> m \<and> m < k \<longrightarrow> dict_contains d (suffixed base m))"
      by blast+
    have "\<exists>k\<ge>n. ?r = suffixed base k
            \<and> (\<forall>m. n \<le> m \<and> m < k \<longrightarrow> dict_contains d (suffixed base m))"
    proof (cases "dict_contains d (suffixed base n)")
      case False
      with shape have "?r = suffixed base n" by simp
      then show ?thesis by (intro exI [of _ n]) auto
    next
      case inside: True
      with shape obtain k where k: "n + 1 \<le> k" "?r = suffixed base k"
        "\<forall>m. n + 1 \<le> m \<and> m < k \<longrightarrow> dict_contains d (suffixed base m)"
        by auto
      have "\<forall>m. n \<le> m \<and> m < k \<longrightarrow> dict_contains d (suffixed base m)"
      proof (intro allI impI)
        fix m assume "n \<le> m \<and> m < k"
        then consider "m = n" | "n + 1 \<le> m \<and> m < k" by linarith
        then show "dict_contains d (suffixed base m)"
          using inside k(3) by cases auto
      qed
      with k show ?thesis by (intro exI [of _ k]) simp
    qed
    with fresh eq True show ?thesis by simp
  qed
qed

lemma load_inventories_snoc:
  "load_inventories (ps @ [p]) =
     load_inventories ps
       @ [(find_label (load_inventories ps) (initial_label p) (initial_label p) 2,
           load_inventory p)]"
proof -
  have "\<not> dict_contains (load_inventories ps)
          (find_label (load_inventories ps) (initial_label p) (initial_label p) 2)"
    using find_label_rule by blast
  then show ?thesis
    by (simp add: load_inventories_def load_step_def Let_def dict_set_fresh dict_contains_def)
qed

lemma load_inventories_values: "map snd (load_inventories ps) = map load_inventory ps"
  by (induction ps rule: rev_induct) (simp_all add: load_inventories_snoc, simp add: load_inventories_def)

lemma load_inventories_length: "length (load_inventories ps) = length ps"
  using load_inventories_values [of ps] by (metis length_map)

lemma load_inventories_distinct: "distinct (dict_keys (load_inventories ps))"
proof (induction ps rule: rev_induct)
  case Nil
  then show ?case by (simp add: load_inventories_def dict_keys_def)
next
  case (snoc p ps)
  have "\<not> dict_contains (load_inventories ps)
          (find_label (load_inventories ps) (initial_label p) (initial_label p) 2)"
    using find_label_rule by blast
  with snoc show ?case
    by (simp add: load_inventories_snoc dict_keys_def dict_contains_def)
qed

lemma load_inventories_labels:
  "i < length ps \<Longrightarrow>
   (let labels = dict_keys (load_inventories ps);
        earlier = set (take i labels);
        base = initial_label (ps ! i)
    in labels ! i \<notin> earlier
       \<and> (if base \<notin> earlier then labels ! i = base
          else \<exists>n\<ge>2. labels ! i = suffixed base n
                 \<and> (\<forall>m. 2 \<le> m \<and> m < n \<longrightarrow> suffixed base m \<in> earlier)))"
proof (induction ps rule: rev_induct)
  case Nil
  then show ?case by simp
next
  case (snoc p ps)
  let ?d = "load_inventories ps"
  let ?l = "find_label ?d (initial_label p) (initial_label p) 2"
  have keys: "dict_keys (load_inventories (ps @ [p])) = dict_keys ?d @ [?l]"
    by (simp add: load_inventories_snoc dict_keys_def)
  have len: "length (dict_keys ?d) = length ps"
    by (simp add: dict_keys_def load_inventories_length)
  show ?case
  proof (cases "i < length ps")
    case True
    with snoc.IH show ?thesis
      by (simp add: keys len nth_append Let_def)
  next
    case False
    with snoc.prems have i: "i = length ps" by simp
    from find_label_rule [of ?d "initial_label p" "initial_label p" 2]
    have "?l \<notin> set (dict_keys ?d)
       \<and> (if initial_label p \<notin> set (dict_keys ?d) then ?l = initial_label p
          else \<exists>n\<ge>2. ?l = suffixed (initial_label p) n
                 \<and> (\<forall>m. 2 \<le> m \<and> m < n \<longrightarrow> suffixed (initial_label p) m \<in> set (dict_keys ?d)))"
      unfolding dict_contains_def by simp
    then show ?thesis
      by (simp add: i keys len nth_append Let_def)
  qed
qed

text \<open>
  Claim C9. \<open>load_inventories\<close> keeps one entry per input file, in the order of the
  input list, holding that file's inventory; the labels are pairwise distinct; the label
  of a file is its stem (\<open>str(p)\<close> only when the stem is empty) when no earlier entry has
  that label, and otherwise the first of \<open>stem-2\<close>, \<open>stem-3\<close>, ... that no earlier entry
  has.
\<close>

theorem C9_load_inventories:
  "map snd (load_inventories paths) = map load_inventory paths
   \<and> length (load_inventories paths) = length paths
   \<and> distinct (dict_keys (load_inventories paths))
   \<and> (\<forall>i < length paths.
        (stem (paths ! i) \<noteq> [] \<longrightarrow> initial_label (paths ! i) = stem (paths ! i))
        \<and> (let labels = dict_keys (load_inventories paths);
                earlier = set (take i labels);
                base = initial_label (paths ! i)
            in labels ! i \<notin> earlier
               \<and> (if base \<notin> earlier then labels ! i = base
                  else \<exists>n\<ge>2. labels ! i = suffixed base n
                         \<and> (\<forall>m. 2 \<le> m \<and> m < n \<longrightarrow> suffixed base m \<in> earlier))))"
proof -
  have stems: "stem p \<noteq> [] \<longrightarrow> initial_label p = stem p" for p
    by (simp add: initial_label_def)
  show ?thesis
    using load_inventories_values [of paths] load_inventories_length [of paths]
      load_inventories_distinct [of paths] load_inventories_labels [of _ paths] stems
    by blast
qed

theorem C9_load_inventories_witness:
  "(1 :: nat) < length [\<lparr>stem = [0x61], path_str = [0x61, 0x2E, 0x74], read_text = [0x7532, 0x0A]\<rparr>,
       \<lparr>stem = [0x61], path_str = [0x73, 0x2F, 0x61, 0x2E, 0x74], read_text = [0x4E59, 0x41]\<rparr>,
       \<lparr>stem = [0x61 :: nat], path_str = [0x74, 0x2F, 0x61, 0x2E, 0x74], read_text = []\<rparr>]
   \<and> load_inventories
      [\<lparr>stem = [0x61], path_str = [0x61, 0x2E, 0x74], read_text = [0x7532, 0x0A]\<rparr>,
       \<lparr>stem = [0x61], path_str = [0x73, 0x2F, 0x61, 0x2E, 0x74], read_text = [0x4E59, 0x41]\<rparr>,
       \<lparr>stem = [0x61], path_str = [0x74, 0x2F, 0x61, 0x2E, 0x74], read_text = []\<rparr>]
     = [([0x61], {0x7532}), ([0x61, 0x2D, 0x32], {0x4E59}), ([0x61, 0x2D, 0x33], {})]
   \<and> distinct (dict_keys (load_inventories
      [\<lparr>stem = [0x61], path_str = [0x61, 0x2E, 0x74], read_text = [0x7532, 0x0A]\<rparr>,
       \<lparr>stem = [0x61], path_str = [0x73, 0x2F, 0x61, 0x2E, 0x74], read_text = [0x4E59, 0x41]\<rparr>,
       \<lparr>stem = [0x61], path_str = [0x74, 0x2F, 0x61, 0x2E, 0x74], read_text = []\<rparr>]))"
proof -
  let ?ps = "[\<lparr>stem = [0x61], path_str = [0x61, 0x2E, 0x74], read_text = [0x7532, 0x0A]\<rparr>,
       \<lparr>stem = [0x61], path_str = [0x73, 0x2F, 0x61, 0x2E, 0x74], read_text = [0x4E59, 0x41]\<rparr>,
       \<lparr>stem = [0x61 :: nat], path_str = [0x74, 0x2F, 0x61, 0x2E, 0x74], read_text = []\<rparr>]"
  have ev: "load_inventories ?ps
     = [([0x61], {0x7532}), ([0x61, 0x2D, 0x32], {0x4E59}), ([0x61, 0x2D, 0x33], {})]"
    by (simp add: load_inventories_def load_step_def Let_def initial_label_def find_label.simps
        dict_contains_def dict_keys_def suffixed_def str_of_nat.simps load_inventory_def
        HAN_RANGES_def del: set_filter)
  note d = C9_load_inventories [of ?ps, THEN conjunct2, THEN conjunct2, THEN conjunct1]
  have len: "(1 :: nat) < length ?ps" by simp
  from len ev d show ?thesis by (intro conjI)
qed

section \<open>Properties of the per-line analyzer\<close>

lemma splitlines_from_step:
  "splitlines_from cur (c # s) =
     (if c = 0x0D \<and> take 1 s = [0x0A] then rev cur # splitlines_from [] (tl s)
      else if py_linebreak c then rev cur # splitlines_from [] s
      else splitlines_from (c # cur) s)"
  by (cases s) auto

lemma splitlines_from_fragment:
  "\<forall>c \<in> set l. \<not> py_linebreak c \<Longrightarrow>
     splitlines_from cur (l @ rest) = splitlines_from (rev l @ cur) rest"
proof (induction l arbitrary: cur)
  case Nil
  then show ?case by simp
next
  case (Cons c l)
  from Cons.prems have c: "\<not> py_linebreak c" and l: "\<forall>c \<in> set l. \<not> py_linebreak c"
    by simp_all
  from c have "c \<noteq> 0x0D" by (auto simp: py_linebreak_def)
  with c have "splitlines_from cur ((c # l) @ rest) = splitlines_from (c # cur) (l @ rest)"
    by (simp add: splitlines_from_step del: splitlines_from.simps)
  with Cons.IH [OF l, of "c # cur"] show ?case by simp
qed

lemma splitlines_from_clean:
  "list_all (\<lambda>c. \<not> py_linebreak c) cur \<Longrightarrow>
     list_all (list_all (\<lambda>c. \<not> py_linebreak c)) (splitlines_from cur s)"
proof (induction cur s rule: splitlines_from.induct)
  case (1 cur)
  then show ?case by (simp add: list_all_rev)
next
  case (2 cur c)
  then show ?case by (simp add: list_all_rev)
next
  case (3 cur c c' rest)
  show ?case
  proof (cases "c = 0x0D \<and> c' = 0x0A")
    case True
    with 3 show ?thesis by (simp add: list_all_rev)
  next
    case False
    show ?thesis
    proof (cases "py_linebreak c")
      case True
      with False 3 show ?thesis by (simp add: list_all_rev)
    next
      case nb: False
      with False 3 show ?thesis by simp
    qed
  qed
qed

lemma splitlines_from_no_breaks:
  "\<forall>c \<in> set cur. \<not> py_linebreak c \<Longrightarrow>
     \<forall>line \<in> set (splitlines_from cur s). \<forall>c \<in> set line. \<not> py_linebreak c"
  using splitlines_from_clean [of cur s] by (simp add: list_all_iff)

lemma rstrip_lf_id: "0x0A \<notin> set l \<Longrightarrow> rstrip_lf l = l"
proof (cases "rev l")
  case Nil
  then show ?thesis by (simp add: rstrip_lf_def)
next
  case (Cons x xs)
  assume "0x0A \<notin> set l"
  moreover from Cons have "x \<in> set l" by (metis list.set_intros(1) set_rev)
  ultimately have "x \<noteq> 0x0A" by auto
  with Cons show ?thesis by (simp add: rstrip_lf_def)
qed

lemma splitlines_rstrip: "map rstrip_lf (splitlines s) = splitlines s"
proof -
  have "\<forall>line \<in> set (splitlines s). \<forall>c \<in> set line. \<not> py_linebreak c"
    unfolding splitlines_def by (rule splitlines_from_no_breaks) simp
  then have "\<forall>line \<in> set (splitlines s). 0x0A \<notin> set line"
    by (auto simp: py_linebreak_def)
  then have "\<forall>line \<in> set (splitlines s). rstrip_lf line = line"
    by (simp add: rstrip_lf_id)
  then show ?thesis by (intro map_idI) blast
qed

lemma per_line_loop_numbers:
  "map line_no (per_line_loop i ls I h) = [i ..< i + length ls]"
proof (induction ls arbitrary: i)
  case Nil
  then show ?case by simp
next
  case (Cons l ls)
  have "[i ..< i + length (l # ls)] = i # [i + 1 ..< (i + 1) + length ls]"
    by (subst upt_rec) simp
  with Cons [of "i + 1"] show ?case
    by (simp add: Let_def line_no_def)
qed

lemma per_line_loop_texts:
  "map line_text (per_line_loop i ls I h) = map rstrip_lf ls"
  by (induction ls arbitrary: i) (simp_all add: Let_def line_text_def)

lemma per_line_loop_totals:
  "map line_total (per_line_loop i ls I h) = map (\<lambda>line. length (iter_text_chars line h)) ls"
  by (induction ls arbitrary: i) (simp_all add: Let_def line_total_def)

lemma per_line_loop_knowns:
  "map line_known (per_line_loop i ls I h)
     = map (\<lambda>line. length (filter (\<lambda>ch. ch \<in> I) (iter_text_chars line h))) ls"
  by (induction ls arbitrary: i) (simp_all add: Let_def line_known_def)

lemma per_line_loop_zero_total:
  "\<forall>r \<in> set (per_line_loop i ls I h). line_total r = 0 \<longrightarrow> line_pct r = 100"
  by (induction ls arbitrary: i) (simp_all add: Let_def line_total_def line_pct_def)

text \<open>
  Claim C4, as amended. \<open>per_line_breakdown\<close> splits the text at the line boundaries of
  \<open>str.splitlines\<close>: a line ends at a line feed, and also at VT, FF, CR (CR LF counting as
  one boundary), FS, GS, RS, NEL, LS or PS; a trailing fragment without boundary is its
  own line; the empty text gives no record. The records are in line order, numbered
  from 1, each with the text of its line, its counted characters and its known
  characters, and with percentage 100 when the line has no counted character.
\<close>

theorem C4_per_line_breakdown:
  "per_line_breakdown [] I h = []
   \<and> map line_no (per_line_breakdown T I h) = [1 ..< Suc (length (splitlines T))]
   \<and> map line_text (per_line_breakdown T I h) = splitlines T
   \<and> map line_total (per_line_breakdown T I h)
       = map (\<lambda>line. length (iter_text_chars line h)) (splitlines T)
   \<and> map line_known (per_line_breakdown T I h)
       = map (\<lambda>line. length (filter (\<lambda>ch. ch \<in> I) (iter_text_chars line h))) (splitlines T)
   \<and> (\<forall>r \<in> set (per_line_breakdown T I h). line_total r = 0 \<longrightarrow> line_pct r = 100)
   \<and> ((\<forall>c \<in> set l. \<not> py_linebreak c) \<longrightarrow>
        (l \<noteq> [] \<longrightarrow> splitlines l = [l])
        \<and> splitlines (l @ 0x0A # rest) = l # splitlines rest
        \<and> splitlines (l @ 0x0D # 0x0A # rest) = l # splitlines rest
        \<and> (py_linebreak b \<and> \<not> (b = 0x0D \<and> take 1 rest = [0x0A])
             \<longrightarrow> splitlines (l @ b # rest) = l # splitlines rest))"
proof -
  have empty: "per_line_breakdown [] I h = []"
    by (simp add: per_line_breakdown_def splitlines_def)
  have numbers: "map line_no (per_line_breakdown T I h) = [1 ..< Suc (length (splitlines T))]"
    by (simp add: per_line_breakdown_def per_line_loop_numbers)
  have texts: "map line_text (per_line_breakdown T I h) = splitlines T"
    by (simp add: per_line_breakdown_def per_line_loop_texts splitlines_rstrip)
  have totals: "map line_total (per_line_breakdown T I h)
       = map (\<lambda>line. length (iter_text_chars line h)) (splitlines T)"
    by (simp add: per_line_breakdown_def per_line_loop_totals)
  have knowns: "map line_known (per_line_breakdown T I h)
       = map (\<lambda>line. length (filter (\<lambda>ch. ch \<in> I) (iter_text_chars line h))) (splitlines T)"
    by (simp add: per_line_breakdown_def per_line_loop_knowns)
  have zero: "\<forall>r \<in> set (per_line_breakdown T I h). line_total r = 0 \<longrightarrow> line_pct r = 100"
    unfolding per_line_breakdown_def by (rule per_line_loop_zero_total)
  have lines: "(l \<noteq> [] \<longrightarrow> splitlines l = [l])
        \<and> splitlines (l @ 0x0A # rest) = l # splitlines rest
        \<and> splitlines (l @ 0x0D # 0x0A # rest) = l # splitlines rest
        \<and> (py_linebreak b \<and> \<not> (b = 0x0D \<and> take 1 rest = [0x0A])
             \<longrightarrow> splitlines (l @ b # rest) = l # splitlines rest)"
    if clean: "\<forall>c \<in> set l. \<not> py_linebreak c"
  proof -
    have frag: "splitlines_from [] (l @ s) = splitlines_from (rev l) s" for s
      using splitlines_from_fragment [OF clean, of "[]" s] by simp
    have a: "l \<noteq> [] \<longrightarrow> splitlines l = [l]"
      using frag [of "[]"] by (simp add: splitlines_def)
    have lf: "py_linebreak 0x0A"
      by (simp add: py_linebreak_def)
    have b: "splitlines (l @ 0x0A # rest) = l # splitlines rest"
      using lf by (simp add: splitlines_def frag splitlines_from_step del: splitlines_from.simps)
    have c: "splitlines (l @ 0x0D # 0x0A # rest) = l # splitlines rest"
      by (simp add: splitlines_def frag splitlines_from_step del: splitlines_from.simps)
    have d: "py_linebreak b \<and> \<not> (b = 0x0D \<and> take 1 rest = [0x0A])
             \<longrightarrow> splitlines (l @ b # rest) = l # splitlines rest"
      by (simp add: splitlines_def frag splitlines_from_step del: splitlines_from.simps)
    from a b c d show ?thesis by blast
  qed
  from empty numbers texts totals knowns zero lines show ?thesis by blast
qed

theorem C4_per_line_breakdown_witness:
  "\<not> py_linebreak 0x7532 \<and> \<not> py_linebreak 0x4E59
   \<and> splitlines ([0x7532, 0x4E59] @ 0x0A # [0x0A, 0x4E19]) = [[0x7532, 0x4E59], [], [0x4E19]]
   \<and> per_line_breakdown [0x7532, 0x4E59, 0x0A, 0x0A, 0x4E19] {0x7532} True
       = [(1, 2, 1, 50, [0x7532, 0x4E59]), (2, 0, 0, 100, []), (3, 1, 0, 0, [0x4E19])]
   \<and> map line_no (per_line_breakdown [0x7532, 0x4E59, 0x0A, 0x0A, 0x4E19] {0x7532} True)
       = [1, 2, 3]"
proof -
  have ev: "per_line_breakdown [0x7532, 0x4E59, 0x0A, 0x0A, 0x4E19] {0x7532} True
       = [(1, 2, 1, 50, [0x7532, 0x4E59]), (2, 0, 0, 100, []), (3, 1, 0, 0, [0x4E19])]"
    by (simp add: per_line_breakdown_def splitlines_def py_linebreak_def Let_def rstrip_lf_def
        HAN_RANGES_def py_strip_def py_isspace_def percentage_none percentage_half)
  have sp: "splitlines [0x0A, 0x4E19] = [[], [0x4E19]]"
    by (simp add: splitlines_def py_linebreak_def)
  have clean: "\<forall>c \<in> set [0x7532, 0x4E59]. \<not> py_linebreak c"
    by (simp add: py_linebreak_def)
  note th = C4_per_line_breakdown [of "{0x7532}" True "[0x7532, 0x4E59, 0x0A, 0x0A, 0x4E19]"
      "[0x7532, 0x4E59]" "[0x0A, 0x4E19]" "0x0A"]
  from th clean have "splitlines ([0x7532, 0x4E59] @ 0x0A # [0x0A, 0x4E19])
      = [0x7532, 0x4E59] # splitlines [0x0A, 0x4E19]"
    by blast
  with sp ev clean show ?thesis by (simp add: line_no_def)
qed

text \<open>
  Claim C4 as stated fails: a form feed (U+000C) is a line boundary for the code, not
  for a reading in which only a line feed ends a line. The text U+7532, form feed, U+4E59
  gives two records where the claim has one line.
\<close>

theorem C4_form_feed_splits:
  "per_line_breakdown [0x7532, 0x0C, 0x4E59] {0x7532} True
     = [(1, 1, 1, 100, [0x7532]), (2, 1, 0, 0, [0x4E59])]
   \<and> spec_lines [0x7532, 0x0C, 0x4E59] = [[0x7532, 0x0C, 0x4E59]]
   \<and> map line_text (per_line_breakdown [0x7532, 0x0C, 0x4E59] {0x7532} True)
       \<noteq> spec_lines [0x7532, 0x0C, 0x4E59]"
  by (simp add: per_line_breakdown_def splitlines_def spec_lines_def py_linebreak_def Let_def
      rstrip_lf_def line_text_def HAN_RANGES_def py_strip_def py_isspace_def
      percentage_none percentage_all)

end
